theory Spec2Isabelle
  imports Main
begin

section \<open>The visit store\<close>

text \<open>
  The three versions of the \<open>ViewCounter\<close> component talk to one table,
  \<open>profile_views\<close>, through the database client. The table's two layouts are the
  two migrations of the repository: a single counter row under a fixed id (the first
  migration, which also inserts the row with \<open>view_count = 0\<close>), and one row per
  visit (the second migration). Counts are JavaScript numbers, exact on the integers
  a counter reaches; they are integers here. Time stamps are left out.
\<close>

definition VIEW_ID :: string where
  "VIEW_ID = ''00000000-0000-0000-0000-000000000001''"

text \<open>Variant A: the \<open>view_count\<close> column of the rows, by id.\<close>

type_synonym tableA = "string \<rightharpoonup> int"

definition initial_tableA :: tableA where
  "initial_tableA = Map.empty(VIEW_ID \<mapsto> 0)"

text \<open>
  Modelled from the spec: the database client (\<open>@/integrations/supabase/client\<close>) is
  not among the source files, so the four requests below follow the spec's external
  interfaces and error taxonomy. A request either succeeds at the store or fails, for
  whatever cause; a failed read answers with no data (\<open>data\<close>, \<open>count\<close> are
  \<open>null\<close>), a failed write changes nothing, and the answer is always an object: the
  awaited request never rejects. The outcome of each request is the parameter \<open>ok\<close>.
\<close>

text \<open>\<open>.select("view_count").eq("id", id).single()\<close>: the \<open>data\<close> of the answer.\<close>

definition select_single :: "bool \<Rightarrow> string \<Rightarrow> tableA \<Rightarrow> int option" where
  "select_single ok i t = (if ok then t i else None)"

text \<open>\<open>.update({ view_count: v, ... }).eq("id", id)\<close>: rewrites the rows that match.\<close>

definition update_eq :: "bool \<Rightarrow> string \<Rightarrow> int \<Rightarrow> tableA \<Rightarrow> tableA" where
  "update_eq ok i v t = (if ok \<and> t i \<noteq> None then t(i \<mapsto> v) else t)"

text \<open>Variant B: one row per visit, each row standing for its generated id.\<close>

type_synonym tableB = "nat list"

text \<open>\<open>.insert({})\<close>: appends one row, unconditionally.\<close>

definition insert_row :: "bool \<Rightarrow> tableB \<Rightarrow> tableB" where
  "insert_row ok t = (if ok then t @ [length t] else t)"

text \<open>\<open>.select("*", { count: "exact", head: true })\<close>: the \<open>count\<close> of the answer.\<close>

definition select_count :: "bool \<Rightarrow> tableB \<Rightarrow> int option" where
  "select_count ok t = (if ok then Some (int (length t)) else None)"


section \<open>The page of one component instance\<close>

text \<open>
  What the component calls on its collaborators, in the order of the calls: a request
  is logged when the asynchronous function that makes it is called and reaches the
  \<open>await\<close> on it, a call on the realtime client when it is made. When the transport
  sends what it was handed is below this level.
\<close>

datatype effect =
    ReqSelect
  | ReqUpdate int
  | ReqInsert
  | ReqCount
  | RemoveChannel nat
  | Subscribe nat

text \<open>
  \<open>viewCount\<close> is the component's \<open>useState\<close>, \<open>hasIncrementedRef\<close> and
  \<open>channelRef\<close> its two \<open>useRef\<close>s (a channel is named by a number). The rest is
  the runtime around the instance: the realtime client keeps the channels that are
  subscribed (\<open>channels\<close>; \<open>next_channel\<close> numbers the next one);
  \<open>mounted\<close> is React's: the effect has run and its cleanup has not;
  \<open>listening\<close> says that the \<open>visibilitychange\<close> listener is registered;
  \<open>pending\<close> holds the asynchronous functions suspended at an \<open>await\<close>, each
  as the point it resumes from; \<open>trace\<close> is the list of effects so far.
\<close>

record 'task page =
  viewCount :: "int option"
  hasIncrementedRef :: bool
  channelRef :: "nat option"
  channels :: "nat list"
  next_channel :: nat
  mounted :: bool
  listening :: bool
  pending :: "'task list"
  trace :: "effect list"

definition initial_page :: "'task page" where
  "initial_page =
     \<lparr>viewCount = None, hasIncrementedRef = False, channelRef = None, channels = [],
      next_channel = 0, mounted = False, listening = False, pending = [], trace = []\<rparr>"

definition setViewCount :: "int option \<Rightarrow> 'task page \<Rightarrow> 'task page" where
  "setViewCount v p = p\<lparr>viewCount := v\<rparr>"

text \<open>
  Modelled from the spec: the realtime client is not among the source files either. As
  the spec's Change Notifier has it, \<open>supabase.removeChannel(ch)\<close> ends the
  subscription \<open>ch\<close>, \<open>supabase.channel(...).on(...).subscribe()\<close> starts a new
  one, and an event of the feed runs the handler of every subscribed channel once.
\<close>

definition removeChannel :: "nat \<Rightarrow> 'task page \<Rightarrow> 'task page" where
  "removeChannel ch p =
     p\<lparr>channels := removeAll ch (channels p), trace := trace p @ [RemoveChannel ch]\<rparr>"

definition subscribe :: "'task page \<Rightarrow> nat \<times> 'task page" where
  "subscribe p =
     (next_channel p,
      p\<lparr>channels := channels p @ [next_channel p],
        next_channel := Suc (next_channel p),
        trace := trace p @ [Subscribe (next_channel p)]\<rparr>)"

definition deliver :: "('task page \<Rightarrow> 'task page) \<Rightarrow> 'task page \<Rightarrow> 'task page" where
  "deliver handler p = fold (\<lambda>ch. handler) (channels p) p"

text \<open>
  \<open>if (viewCount === null) return null;\<close> and otherwise the element that shows
  \<open>viewCount.toLocaleString()\<close> followed by \<open>views\<close>. The three versions
  render alike.
\<close>

datatype rendered = RenderNull | RenderViews int

definition render :: "'task page \<Rightarrow> rendered" where
  "render p = (case viewCount p of None \<Rightarrow> RenderNull | Some n \<Rightarrow> RenderViews n)"

text \<open>
  Reading \<open>view_count\<close> of the selected row; reading a property of \<open>null\<close> throws.
\<close>

datatype js_error = TypeError

definition view_count :: "int option \<Rightarrow> js_error + int" where
  "view_count data = (case data of None \<Rightarrow> Inl TypeError | Some v \<Rightarrow> Inr v)"

text \<open>
  \<open>setupRealtimeChannel\<close> and the effect's cleanup are the same in the two versions
  that subscribe; they differ in the event they subscribe to and in its handler.
\<close>

definition setupRealtimeChannel :: "'task page \<Rightarrow> 'task page" where
  "setupRealtimeChannel p =
     (let p1 = (case channelRef p of Some ch \<Rightarrow> removeChannel ch p | None \<Rightarrow> p);
          (channel, p2) = subscribe p1
      in p2\<lparr>channelRef := Some channel\<rparr>)"

definition cleanup :: "'task page \<Rightarrow> 'task page" where
  "cleanup p =
     (let p1 = (case channelRef p of
                  Some ch \<Rightarrow> (removeChannel ch p)\<lparr>channelRef := None\<rparr>
                | None \<Rightarrow> p)
      in p1\<lparr>listening := False\<rparr>)"

text \<open>The events of a page's life.\<close>

datatype 'ev action =
    Mount
  | Unmount
  | Visibility bool
  | Response nat bool
  | Notify 'ev

text \<open>
  \<open>Mount\<close> runs the effect and \<open>Unmount\<close> its cleanup; React alternates the two,
  and the refs and the state of the instance outlive an unmount that is followed by a
  mount (as in strict mode). \<open>Visibility hidden\<close> is a \<open>visibilitychange\<close> event
  with \<open>document.hidden = hidden\<close>. \<open>Response k ok\<close> answers the \<open>k\<close>-th
  pending request, in any order: the request takes effect at the store, or fails, at
  that moment, and the function that awaited it runs on to its next \<open>await\<close> or to its
  end. \<open>Notify ev\<close> is an event of the subscribed feed reaching the page.
\<close>

definition take_out :: "nat \<Rightarrow> 'a list \<Rightarrow> 'a list" where
  "take_out k xs = take k xs @ drop (Suc k) xs"


section \<open>Variant A with guard and subscription (the version with the sentinel row)\<close>

text \<open>
  The version of \<open>ViewCounter\<close> in \<open>src/unnamed/part_004\<close>. Each asynchronous
  function is cut at its \<open>await\<close>s: the part that runs when it is called, and the
  parts that run when a request is answered.
\<close>

datatype taskA = Inc_select | Inc_update int | Fetch_select

definition A_fetchViewCount :: "taskA page \<Rightarrow> taskA page" where
  "A_fetchViewCount p =
     p\<lparr>pending := pending p @ [Fetch_select], trace := trace p @ [ReqSelect]\<rparr>"

definition A_fetchViewCount_selected :: "int option \<Rightarrow> taskA page \<Rightarrow> js_error + taskA page" where
  "A_fetchViewCount_selected data p =
     (if data \<noteq> None then
        (case view_count data of
           Inl e \<Rightarrow> Inl e
         | Inr v \<Rightarrow> Inr (setViewCount (Some v) p))
      else Inr p)"

text \<open>The handler of the \<open>UPDATE\<close> event: \<open>payload.new.view_count\<close> is \<open>v\<close>.\<close>

definition A_on_update :: "int \<Rightarrow> taskA page \<Rightarrow> taskA page" where
  "A_on_update v p = setViewCount (Some v) p"

text \<open>\<open>incrementAndFetch\<close>, up to its first \<open>await\<close>.\<close>

definition A_incrementAndFetch :: "taskA page \<Rightarrow> taskA page" where
  "A_incrementAndFetch p =
     (if hasIncrementedRef p then p
      else p\<lparr>hasIncrementedRef := True,
             pending := pending p @ [Inc_select],
             trace := trace p @ [ReqSelect]\<rparr>)"

text \<open>From the answer of the select to the second \<open>await\<close>.\<close>

definition A_incrementAndFetch_selected :: "int option \<Rightarrow> taskA page \<Rightarrow> js_error + taskA page" where
  "A_incrementAndFetch_selected currentData p =
     (if currentData \<noteq> None then
        (case view_count currentData of
           Inl e \<Rightarrow> Inl e
         | Inr v \<Rightarrow>
             (let newCount = v + 1
              in Inr (p\<lparr>pending := pending p @ [Inc_update newCount],
                        trace := trace p @ [ReqUpdate newCount]\<rparr>)))
      else Inr p)"

text \<open>After the update has been answered.\<close>

definition A_incrementAndFetch_updated :: "int \<Rightarrow> taskA page \<Rightarrow> taskA page" where
  "A_incrementAndFetch_updated newCount p = setViewCount (Some newCount) p"

definition A_handleVisibilityChange :: "bool \<Rightarrow> taskA page \<Rightarrow> taskA page" where
  "A_handleVisibilityChange hidden p =
     (if hidden then p
      else setupRealtimeChannel (A_fetchViewCount p))"

definition A_effect :: "taskA page \<Rightarrow> taskA page" where
  "A_effect p = (setupRealtimeChannel (A_incrementAndFetch p))\<lparr>listening := True\<rparr>"

text \<open>A function that throws rejects its promise, which nothing awaits.\<close>

definition settle :: "'s \<Rightarrow> js_error + 's \<Rightarrow> 's" where
  "settle p r = (case r of Inl e \<Rightarrow> p | Inr p' \<Rightarrow> p')"

fun A_resume :: "taskA \<Rightarrow> bool \<Rightarrow> tableA \<times> taskA page \<Rightarrow> tableA \<times> taskA page" where
  "A_resume Inc_select ok (t, p) =
     (t, settle p (A_incrementAndFetch_selected (select_single ok VIEW_ID t) p))"
| "A_resume (Inc_update newCount) ok (t, p) =
     (update_eq ok VIEW_ID newCount t, A_incrementAndFetch_updated newCount p)"
| "A_resume Fetch_select ok (t, p) =
     (t, settle p (A_fetchViewCount_selected (select_single ok VIEW_ID t) p))"

fun A_step :: "int action \<Rightarrow> tableA \<times> taskA page \<Rightarrow> tableA \<times> taskA page" where
  "A_step Mount (t, p) =
     (if mounted p then (t, p) else (t, (A_effect p)\<lparr>mounted := True\<rparr>))"
| "A_step Unmount (t, p) =
     (if mounted p then (t, (cleanup p)\<lparr>mounted := False\<rparr>) else (t, p))"
| "A_step (Visibility hidden) (t, p) =
     (if listening p then (t, A_handleVisibilityChange hidden p) else (t, p))"
| "A_step (Response k ok) (t, p) =
     (if k < length (pending p)
      then A_resume (pending p ! k) ok (t, p\<lparr>pending := take_out k (pending p)\<rparr>)
      else (t, p))"
| "A_step (Notify v) (t, p) = (t, deliver (A_on_update v) p)"

definition A_run :: "int action list \<Rightarrow> tableA \<times> taskA page \<Rightarrow> tableA \<times> taskA page" where
  "A_run as s = fold A_step as s"

text \<open>
  One visit after the other, each by a page of its own that is answered before the next
  one loads; the pair gives the outcomes of the visit's read and of its write.
\<close>

definition A_visit :: "bool \<times> bool \<Rightarrow> tableA \<Rightarrow> tableA" where
  "A_visit oks t =
     fst (A_run [Mount, Response 0 (fst oks), Response 0 (snd oks)] (t, initial_page))"

definition A_visits :: "(bool \<times> bool) list \<Rightarrow> tableA \<Rightarrow> tableA" where
  "A_visits okss t = fold A_visit okss t"

text \<open>Several pages on the one table, their steps interleaved as a schedule says.\<close>

fun A_world_step ::
  "nat \<times> int action \<Rightarrow> tableA \<times> taskA page list \<Rightarrow> tableA \<times> taskA page list" where
  "A_world_step (i, a) (t, ps) =
     (if i < length ps
      then (let (t', p') = A_step a (t, ps ! i) in (t', ps[i := p']))
      else (t, ps))"

definition A_world_run ::
  "(nat \<times> int action) list \<Rightarrow> tableA \<times> taskA page list \<Rightarrow> tableA \<times> taskA page list" where
  "A_world_run sch w = fold A_world_step sch w"


section \<open>Variant B with guard and subscription (the version with the visit log)\<close>

text \<open>The version of \<open>ViewCounter\<close> in \<open>src/unnamed/part_005\<close>.\<close>

datatype taskB = Rec_insert | Await_count

definition B_fetchViewCount :: "taskB page \<Rightarrow> taskB page" where
  "B_fetchViewCount p =
     p\<lparr>pending := pending p @ [Await_count], trace := trace p @ [ReqCount]\<rparr>"

definition B_fetchViewCount_counted :: "int option \<Rightarrow> taskB page \<Rightarrow> taskB page" where
  "B_fetchViewCount_counted count p =
     (if count \<noteq> None then setViewCount count p else p)"

text \<open>The handler of the \<open>INSERT\<close> event, which reads nothing of its payload.\<close>

definition B_on_insert :: "taskB page \<Rightarrow> taskB page" where
  "B_on_insert p =
     setViewCount (case viewCount p of Some prev \<Rightarrow> Some (prev + 1) | None \<Rightarrow> None) p"

text \<open>\<open>recordViewAndFetch\<close>, up to its first \<open>await\<close>.\<close>

definition B_recordViewAndFetch :: "taskB page \<Rightarrow> taskB page" where
  "B_recordViewAndFetch p =
     (if hasIncrementedRef p then p
      else p\<lparr>hasIncrementedRef := True,
             pending := pending p @ [Rec_insert],
             trace := trace p @ [ReqInsert]\<rparr>)"

text \<open>
  After the insert has been answered: \<open>await fetchViewCount()\<close>, after which the
  function returns.
\<close>

definition B_recordViewAndFetch_inserted :: "taskB page \<Rightarrow> taskB page" where
  "B_recordViewAndFetch_inserted p = B_fetchViewCount p"

definition B_handleVisibilityChange :: "bool \<Rightarrow> taskB page \<Rightarrow> taskB page" where
  "B_handleVisibilityChange hidden p =
     (if hidden then p
      else setupRealtimeChannel (B_fetchViewCount p))"

definition B_effect :: "taskB page \<Rightarrow> taskB page" where
  "B_effect p = (setupRealtimeChannel (B_recordViewAndFetch p))\<lparr>listening := True\<rparr>"

fun B_resume :: "taskB \<Rightarrow> bool \<Rightarrow> tableB \<times> taskB page \<Rightarrow> tableB \<times> taskB page" where
  "B_resume Rec_insert ok (t, p) = (insert_row ok t, B_recordViewAndFetch_inserted p)"
| "B_resume Await_count ok (t, p) = (t, B_fetchViewCount_counted (select_count ok t) p)"

fun B_step :: "unit action \<Rightarrow> tableB \<times> taskB page \<Rightarrow> tableB \<times> taskB page" where
  "B_step Mount (t, p) =
     (if mounted p then (t, p) else (t, (B_effect p)\<lparr>mounted := True\<rparr>))"
| "B_step Unmount (t, p) =
     (if mounted p then (t, (cleanup p)\<lparr>mounted := False\<rparr>) else (t, p))"
| "B_step (Visibility hidden) (t, p) =
     (if listening p then (t, B_handleVisibilityChange hidden p) else (t, p))"
| "B_step (Response k ok) (t, p) =
     (if k < length (pending p)
      then B_resume (pending p ! k) ok (t, p\<lparr>pending := take_out k (pending p)\<rparr>)
      else (t, p))"
| "B_step (Notify ev) (t, p) = (t, deliver B_on_insert p)"

definition B_run :: "unit action list \<Rightarrow> tableB \<times> taskB page \<Rightarrow> tableB \<times> taskB page" where
  "B_run as s = fold B_step as s"

text \<open>
  Several pages on one table: a schedule says which page takes which step next, so the
  requests of different visitors reach the store in any order.
\<close>

fun B_world_step ::
  "nat \<times> unit action \<Rightarrow> tableB \<times> taskB page list \<Rightarrow> tableB \<times> taskB page list" where
  "B_world_step (i, a) (t, ps) =
     (if i < length ps
      then (let (t', p') = B_step a (t, ps ! i) in (t', ps[i := p']))
      else (t, ps))"

definition B_world_run ::
  "(nat \<times> unit action) list \<Rightarrow> tableB \<times> taskB page list \<Rightarrow> tableB \<times> taskB page list" where
  "B_world_run sch w = fold B_world_step sch w"

text \<open>A page has recorded its visit once the insert it issued has been answered.\<close>

definition recorded :: "taskB page \<Rightarrow> bool" where
  "recorded p = (hasIncrementedRef p \<and> Rec_insert \<notin> set (pending p))"

definition failed_response :: "nat \<times> unit action \<Rightarrow> bool" where
  "failed_response x = (case snd x of Response k ok \<Rightarrow> \<not> ok | _ \<Rightarrow> False)"


section \<open>The current component (sentinel row, neither guard nor subscription)\<close>

text \<open>
  \<open>src/components/ViewCounter.tsx\<close> has the state \<open>viewCount\<close> alone, no ref and
  no channel: the other fields of the page keep their initial values. Its effect calls
  \<open>incrementAndFetch\<close> and returns no cleanup, and it listens to nothing.
\<close>

definition cur_incrementAndFetch :: "taskA page \<Rightarrow> taskA page" where
  "cur_incrementAndFetch p =
     p\<lparr>pending := pending p @ [Inc_select], trace := trace p @ [ReqSelect]\<rparr>"

definition cur_incrementAndFetch_selected :: "int option \<Rightarrow> taskA page \<Rightarrow> js_error + taskA page" where
  "cur_incrementAndFetch_selected currentData p =
     (if currentData \<noteq> None then
        (case view_count currentData of
           Inl e \<Rightarrow> Inl e
         | Inr v \<Rightarrow>
             (let newCount = v + 1
              in Inr (p\<lparr>pending := pending p @ [Inc_update newCount],
                        trace := trace p @ [ReqUpdate newCount]\<rparr>)))
      else Inr p)"

definition cur_incrementAndFetch_updated :: "int \<Rightarrow> taskA page \<Rightarrow> taskA page" where
  "cur_incrementAndFetch_updated newCount p = setViewCount (Some newCount) p"

definition cur_effect :: "taskA page \<Rightarrow> taskA page" where
  "cur_effect p = cur_incrementAndFetch p"

fun cur_resume :: "taskA \<Rightarrow> bool \<Rightarrow> tableA \<times> taskA page \<Rightarrow> tableA \<times> taskA page" where
  "cur_resume Inc_select ok (t, p) =
     (t, settle p (cur_incrementAndFetch_selected (select_single ok VIEW_ID t) p))"
| "cur_resume (Inc_update newCount) ok (t, p) =
     (update_eq ok VIEW_ID newCount t, cur_incrementAndFetch_updated newCount p)"
| "cur_resume Fetch_select ok (t, p) = (t, p)"

fun cur_step :: "int action \<Rightarrow> tableA \<times> taskA page \<Rightarrow> tableA \<times> taskA page" where
  "cur_step Mount (t, p) =
     (if mounted p then (t, p) else (t, (cur_effect p)\<lparr>mounted := True\<rparr>))"
| "cur_step Unmount (t, p) = (t, p\<lparr>mounted := False\<rparr>)"
| "cur_step (Visibility hidden) (t, p) = (t, p)"
| "cur_step (Response k ok) (t, p) =
     (if k < length (pending p)
      then cur_resume (pending p ! k) ok (t, p\<lparr>pending := take_out k (pending p)\<rparr>)
      else (t, p))"
| "cur_step (Notify v) (t, p) = (t, p)"

definition cur_run :: "int action list \<Rightarrow> tableA \<times> taskA page \<Rightarrow> tableA \<times> taskA page" where
  "cur_run as s = fold cur_step as s"

definition cur_visit :: "bool \<times> bool \<Rightarrow> tableA \<Rightarrow> tableA" where
  "cur_visit oks t =
     fst (cur_run [Mount, Response 0 (fst oks), Response 0 (snd oks)] (t, initial_page))"

definition cur_visits :: "(bool \<times> bool) list \<Rightarrow> tableA \<Rightarrow> tableA" where
  "cur_visits okss t = fold cur_visit okss t"


section \<open>What is observed of a page\<close>

text \<open>The writes among the effects, and the subscriptions a page holds.\<close>

fun is_write :: "effect \<Rightarrow> bool" where
  "is_write (ReqUpdate v) = True"
| "is_write ReqInsert = True"
| "is_write e = False"

definition writes :: "'task page \<Rightarrow> nat" where
  "writes p = length (filter is_write (trace p))"

definition subscriptions :: "'task page \<Rightarrow> nat" where
  "subscriptions p = length (channels p)"

text \<open>
  The realtime client holds the channel the ref names, and no other; the name of the
  next channel is not in use.
\<close>

definition own_channel :: "'task page \<Rightarrow> bool" where
  "own_channel p =
     (case channelRef p of
        None \<Rightarrow> channels p = []
      | Some ch \<Rightarrow> channels p = [ch] \<and> ch < next_channel p)"

text \<open>
  The guard at work: a page has at most one insert on its way, and none before the flag
  is set; the writes a page has issued and the reads that will lead to one are at most
  one together, and none before the flag is set.
\<close>

definition one_insert :: "taskB page \<Rightarrow> bool" where
  "one_insert p = (count_list (pending p) Rec_insert \<le> (if hasIncrementedRef p then 1 else 0))"

definition one_increment :: "taskA page \<Rightarrow> bool" where
  "one_increment p =
     (writes p + count_list (pending p) Inc_select \<le> (if hasIncrementedRef p then 1 else 0))"

text \<open>The count is known: the component shows it.\<close>

definition known :: "'task page \<Rightarrow> bool" where
  "known p = (viewCount p \<noteq> None)"


section \<open>The answers are handled without throwing\<close>

lemma A_selected_Inr:
  "A_incrementAndFetch_selected data p =
     Inr (case data of None \<Rightarrow> p
          | Some v \<Rightarrow> p\<lparr>pending := pending p @ [Inc_update (v + 1)],
                         trace := trace p @ [ReqUpdate (v + 1)]\<rparr>)"
  by (simp add: A_incrementAndFetch_selected_def view_count_def Let_def split: option.splits)

lemma A_fetch_selected_Inr:
  "A_fetchViewCount_selected data p =
     Inr (case data of None \<Rightarrow> p | Some v \<Rightarrow> p\<lparr>viewCount := Some v\<rparr>)"
  by (simp add: A_fetchViewCount_selected_def view_count_def setViewCount_def split: option.splits)

lemma cur_selected_Inr:
  "cur_incrementAndFetch_selected data p =
     Inr (case data of None \<Rightarrow> p
          | Some v \<Rightarrow> p\<lparr>pending := pending p @ [Inc_update (v + 1)],
                         trace := trace p @ [ReqUpdate (v + 1)]\<rparr>)"
  by (simp add: cur_incrementAndFetch_selected_def view_count_def Let_def split: option.splits)

lemmas resume_simps = A_selected_Inr A_fetch_selected_Inr cur_selected_Inr settle_def
  A_incrementAndFetch_updated_def cur_incrementAndFetch_updated_def setViewCount_def
  B_recordViewAndFetch_inserted_def B_fetchViewCount_def B_fetchViewCount_counted_def


section \<open>What the subscription calls and an event leave alone\<close>

lemma setup_channelRef: "channelRef (setupRealtimeChannel p) = Some (next_channel p)"
  by (simp add: setupRealtimeChannel_def removeChannel_def subscribe_def split: option.splits)

lemma setup_next: "next_channel (setupRealtimeChannel p) = Suc (next_channel p)"
  by (simp add: setupRealtimeChannel_def removeChannel_def subscribe_def split: option.splits)

lemma setup_trace:
  "trace (setupRealtimeChannel p) =
     trace p @ (case channelRef p of Some ch \<Rightarrow> [RemoveChannel ch] | None \<Rightarrow> [])
       @ [Subscribe (next_channel p)]"
  by (simp add: setupRealtimeChannel_def removeChannel_def subscribe_def split: option.splits)

lemma setup_viewCount: "viewCount (setupRealtimeChannel p) = viewCount p"
  by (simp add: setupRealtimeChannel_def removeChannel_def subscribe_def split: option.splits)

lemma setup_guard:
  "hasIncrementedRef (setupRealtimeChannel p) = hasIncrementedRef p
   \<and> pending (setupRealtimeChannel p) = pending p"
  by (simp add: setupRealtimeChannel_def removeChannel_def subscribe_def split: option.splits)

lemma setup_writes:
  "filter is_write (trace (setupRealtimeChannel p)) = filter is_write (trace p)"
  by (simp add: setup_trace split: option.splits)

lemma cleanup_viewCount: "viewCount (cleanup p) = viewCount p"
  by (simp add: cleanup_def removeChannel_def split: option.splits)

lemma cleanup_guard:
  "hasIncrementedRef (cleanup p) = hasIncrementedRef p \<and> pending (cleanup p) = pending p"
  by (simp add: cleanup_def removeChannel_def split: option.splits)

lemma cleanup_writes: "filter is_write (trace (cleanup p)) = filter is_write (trace p)"
  by (simp add: cleanup_def removeChannel_def split: option.splits)

lemma deliver_fields:
  assumes "\<And>q. channels (h q) = channels q" "\<And>q. channelRef (h q) = channelRef q"
    "\<And>q. next_channel (h q) = next_channel q"
  shows "channels (deliver h p) = channels p \<and> channelRef (deliver h p) = channelRef p
    \<and> next_channel (deliver h p) = next_channel p"
proof -
  have "channels (fold (\<lambda>ch. h) xs p) = channels p
      \<and> channelRef (fold (\<lambda>ch. h) xs p) = channelRef p
      \<and> next_channel (fold (\<lambda>ch. h) xs p) = next_channel p" for xs :: "nat list"
    by (induction xs arbitrary: p) (simp_all add: assms)
  then show ?thesis by (simp add: deliver_def)
qed

lemma deliver_known:
  assumes "\<And>q. known q \<Longrightarrow> known (h q)" and "known p"
  shows "known (deliver h p)"
proof -
  have "known q \<Longrightarrow> known (fold (\<lambda>ch. h) xs q)" for xs :: "nat list" and q
    by (induction xs arbitrary: q) (simp_all add: assms(1))
  with assms(2) show ?thesis by (simp add: deliver_def)
qed

lemma deliver_guard:
  assumes "\<And>q. hasIncrementedRef (h q) = hasIncrementedRef q" "\<And>q. pending (h q) = pending q"
  shows "hasIncrementedRef (deliver h p) = hasIncrementedRef p \<and> pending (deliver h p) = pending p"
proof -
  have "hasIncrementedRef (fold (\<lambda>ch. h) xs p) = hasIncrementedRef p
      \<and> pending (fold (\<lambda>ch. h) xs p) = pending p" for xs :: "nat list"
    by (induction xs arbitrary: p) (simp_all add: assms)
  then show ?thesis by (simp add: deliver_def)
qed

lemma deliver_trace:
  assumes "\<And>q. trace (h q) = trace q"
  shows "trace (deliver h p) = trace p"
proof -
  have "trace (fold (\<lambda>ch. h) xs p) = trace p" for xs :: "nat list"
    by (induction xs arbitrary: p) (simp_all add: assms)
  then show ?thesis by (simp add: deliver_def)
qed

lemma deliver_A_on_update:
  "channels p \<noteq> [] \<Longrightarrow> deliver (A_on_update v) p = p\<lparr>viewCount := Some v\<rparr>"
proof -
  have "xs \<noteq> [] \<Longrightarrow> fold (\<lambda>ch. A_on_update v) xs q = q\<lparr>viewCount := Some v\<rparr>"
    for xs :: "nat list" and q :: "taskA page"
  proof (induction xs arbitrary: q)
    case Nil
    then show ?case by simp
  next
    case (Cons x xs)
    then show ?case
      by (cases xs) (simp_all add: A_on_update_def setViewCount_def)
  qed
  then show "channels p \<noteq> [] \<Longrightarrow> deliver (A_on_update v) p = p\<lparr>viewCount := Some v\<rparr>"
    by (simp add: deliver_def)
qed

lemma count_list_take_out:
  "k < length xs \<Longrightarrow>
     count_list (take_out k xs) y = count_list xs y - (if xs ! k = y then 1 else 0)"
proof -
  assume k: "k < length xs"
  have "count_list xs y = count_list (take k xs @ xs ! k # drop (Suc k) xs) y"
    using id_take_nth_drop [OF k] by simp
  then show ?thesis by (simp add: take_out_def)
qed

lemma filter_length_update:
  "i < length ps \<Longrightarrow>
     length (filter P (ps[i := q])) + (if P (ps ! i) then 1 else 0)
       = length (filter P ps) + (if P q then 1 else 0)"
proof -
  assume i: "i < length ps"
  have "length (filter P ps) = length (filter P (take i ps @ ps ! i # drop (Suc i) ps))"
    using id_take_nth_drop [OF i] by simp
  then show ?thesis by (simp add: upd_conv_take_nth_drop [OF i])
qed


section \<open>The guard of the visit recorder\<close>

lemma A_second_call: "A_incrementAndFetch (A_incrementAndFetch p) = A_incrementAndFetch p"
  by (simp add: A_incrementAndFetch_def)

lemma B_second_call: "B_recordViewAndFetch (B_recordViewAndFetch p) = B_recordViewAndFetch p"
  by (simp add: B_recordViewAndFetch_def)

lemma one_increment_initial: "one_increment initial_page"
  by (simp add: one_increment_def writes_def initial_page_def)

lemma A_step_one_increment:
  assumes "one_increment p" and "A_step a (t, p) = (t', p')"
  shows "one_increment p'"
proof (cases a)
  case Mount
  with assms show ?thesis
    by (auto simp: one_increment_def A_effect_def setup_guard setup_writes
        A_incrementAndFetch_def writes_def split: if_splits)
next
  case Unmount
  with assms show ?thesis
    by (auto simp: one_increment_def cleanup_guard cleanup_writes writes_def split: if_splits)
next
  case (Visibility hidden)
  with assms show ?thesis
    by (auto simp: one_increment_def A_handleVisibilityChange_def setup_guard setup_writes
        A_fetchViewCount_def writes_def split: if_splits)
next
  case (Response k ok)
  show ?thesis
  proof (cases "k < length (pending p)")
    case False
    with assms Response show ?thesis by simp
  next
    case True
    show ?thesis
    proof (cases "pending p ! k")
      case Inc_select
      with True have "Inc_select \<in> set (pending p)" by (metis nth_mem)
      then have "count_list (pending p) Inc_select \<noteq> 0" by (simp add: count_list_0_iff)
      have nz: "count_list (pending p) Inc_select \<noteq> 0" by fact
      have flag: "hasIncrementedRef p"
        using assms(1) nz by (auto simp: one_increment_def split: if_splits)
      with assms(1)
      have "length (filter is_write (trace p)) + count_list (pending p) Inc_select \<le> 1"
        by (simp add: one_increment_def writes_def)
      with nz have "count_list (pending p) Inc_select = 1"
        and "length (filter is_write (trace p)) < 1"
        by arith+
      then have "count_list (pending p) Inc_select = 1"
        and "filter is_write (trace p) = []"
        by simp_all
      with flag have "count_list (pending p) Inc_select = 1"
        and "filter is_write (trace p) = []" and "hasIncrementedRef p"
        by simp_all
      with Inc_select True assms(2) Response show ?thesis
        by (auto simp: one_increment_def writes_def count_list_take_out resume_simps
            split: if_splits option.splits)
    next
      case (Inc_update n)
      with True assms Response show ?thesis
        by (auto simp: one_increment_def writes_def count_list_take_out resume_simps
            split: if_splits)
    next
      case Fetch_select
      with True assms Response show ?thesis
        by (auto simp: one_increment_def writes_def count_list_take_out resume_simps
            split: if_splits option.splits)
    qed
  qed
next
  case (Notify v)
  have "trace (deliver (A_on_update v) p) = trace p"
    by (rule deliver_trace) (simp add: A_on_update_def setViewCount_def)
  with assms Notify show ?thesis
    using deliver_guard [of "A_on_update v" p]
    by (auto simp: one_increment_def writes_def A_on_update_def setViewCount_def)
qed

lemma A_run_one_increment:
  "one_increment p \<Longrightarrow> A_run as (t, p) = (t', p') \<Longrightarrow> one_increment p'"
proof (induction as arbitrary: t p)
  case Nil
  then show ?case by (simp add: A_run_def)
next
  case (Cons a as)
  obtain t1 p1 where s: "A_step a (t, p) = (t1, p1)" by (cases "A_step a (t, p)")
  with Cons.prems have "one_increment p1" by (auto dest: A_step_one_increment)
  moreover from Cons.prems s have "A_run as (t1, p1) = (t', p')" by (simp add: A_run_def)
  ultimately show ?case by (rule Cons.IH)
qed

text \<open>
  For the guarded version with the sentinel row: whatever happens to a page, it issues
  at most one write, and a second call of the recorder changes nothing.
\<close>

lemma A_page_writes_once: "A_run as (t, initial_page) = (t', p') \<Longrightarrow> writes p' \<le> 1"
  using A_run_one_increment [OF one_increment_initial, of as t t' p']
  by (simp add: one_increment_def split: if_splits)

lemma B_step_writes:
  assumes "writes p \<le> (if hasIncrementedRef p then 1 else 0)" and "B_step a (t, p) = (t', p')"
  shows "writes p' \<le> (if hasIncrementedRef p' then 1 else 0)"
proof (cases a)
  case Mount
  with assms show ?thesis
    by (auto simp: B_effect_def setup_guard setup_writes
        B_recordViewAndFetch_def writes_def split: if_splits)
next
  case Unmount
  with assms show ?thesis
    by (auto simp: cleanup_guard cleanup_writes writes_def split: if_splits)
next
  case (Visibility hidden)
  with assms show ?thesis
    by (auto simp: B_handleVisibilityChange_def setup_guard setup_writes
        B_fetchViewCount_def writes_def split: if_splits)
next
  case (Response k ok)
  with assms show ?thesis
    by (cases "pending p ! k") (auto simp: writes_def resume_simps split: if_splits)
next
  case (Notify v)
  have "trace (deliver B_on_insert p) = trace p"
    by (rule deliver_trace) (simp add: B_on_insert_def setViewCount_def)
  with assms Notify show ?thesis
    using deliver_guard [of B_on_insert p]
    by (auto simp: writes_def B_on_insert_def setViewCount_def)
qed

lemma B_run_writes:
  "writes p \<le> (if hasIncrementedRef p then 1 else 0) \<Longrightarrow> B_run as (t, p) = (t', p')
    \<Longrightarrow> writes p' \<le> (if hasIncrementedRef p' then 1 else 0)"
proof (induction as arbitrary: t p)
  case Nil
  then show ?case by (simp add: B_run_def)
next
  case (Cons a as)
  obtain t1 p1 where s: "B_step a (t, p) = (t1, p1)" by (cases "B_step a (t, p)")
  with Cons.prems have "writes p1 \<le> (if hasIncrementedRef p1 then 1 else 0)"
    using B_step_writes [of p a t t1 p1] by simp
  moreover from Cons.prems s have "B_run as (t1, p1) = (t', p')" by (simp add: B_run_def)
  ultimately show ?case by (rule Cons.IH)
qed

text \<open>The same for the version with the visit log.\<close>

lemma B_page_writes_once: "B_run as (t, initial_page) = (t', p') \<Longrightarrow> writes p' \<le> 1"
  using B_run_writes [of initial_page as t t' p']
  by (simp add: writes_def initial_page_def split: if_splits)

text \<open>
  Claim C1 (one write per session) holds for the two guarded versions, as the lemmas
  above say, and fails for the current component, which has no flag. With the sentinel
  row at \<open>41\<close>, the effect of one component instance runs twice (mount, unmount,
  mount, as React's strict mode does): the current component issues two reads and two
  updates and leaves the row at \<open>43\<close>, where the guarded version issues one update
  and leaves the row at \<open>42\<close>. Two calls of \<open>incrementAndFetch\<close> in a row issue
  two reads in the current component and one in the guarded version.
\<close>

theorem cur_incrementAndFetch_twice_writes_twice:
  "writes (snd (cur_run
      [Mount, Response 0 True, Response 0 True, Unmount, Mount, Response 0 True, Response 0 True]
      (initial_tableA(VIEW_ID \<mapsto> 41), initial_page))) = 2
   \<and> fst (cur_run
      [Mount, Response 0 True, Response 0 True, Unmount, Mount, Response 0 True, Response 0 True]
      (initial_tableA(VIEW_ID \<mapsto> 41), initial_page)) VIEW_ID = Some 43
   \<and> writes (snd (A_run
      [Mount, Response 0 True, Response 0 True, Unmount, Mount, Response 0 True, Response 0 True]
      (initial_tableA(VIEW_ID \<mapsto> 41), initial_page))) = 1
   \<and> fst (A_run
      [Mount, Response 0 True, Response 0 True, Unmount, Mount, Response 0 True, Response 0 True]
      (initial_tableA(VIEW_ID \<mapsto> 41), initial_page)) VIEW_ID = Some 42
   \<and> trace (cur_incrementAndFetch (cur_incrementAndFetch initial_page)) = [ReqSelect, ReqSelect]
   \<and> trace (A_incrementAndFetch (A_incrementAndFetch initial_page)) = [ReqSelect]"
  by (simp add: cur_run_def cur_effect_def cur_incrementAndFetch_def
      A_run_def A_effect_def A_incrementAndFetch_def cleanup_def
      resume_simps take_out_def select_single_def update_eq_def initial_tableA_def writes_def
      setupRealtimeChannel_def removeChannel_def subscribe_def initial_page_def)


section \<open>Sequential visits on the sentinel row\<close>

lemma A_visit_eq:
  "A_visit (r, w) t =
     (case t VIEW_ID of
        Some v \<Rightarrow> if r \<and> w then t(VIEW_ID \<mapsto> v + 1) else t
      | None \<Rightarrow> t)"
  by (simp add: A_visit_def A_run_def A_effect_def A_incrementAndFetch_def resume_simps
      take_out_def select_single_def update_eq_def
      setupRealtimeChannel_def removeChannel_def subscribe_def initial_page_def
      split: option.splits)

lemma cur_visit_eq:
  "cur_visit (r, w) t =
     (case t VIEW_ID of
        Some v \<Rightarrow> if r \<and> w then t(VIEW_ID \<mapsto> v + 1) else t
      | None \<Rightarrow> t)"
  by (simp add: cur_visit_def cur_run_def cur_effect_def cur_incrementAndFetch_def resume_simps
      take_out_def select_single_def update_eq_def initial_page_def
      split: option.splits)

lemma A_visits_count:
  "t VIEW_ID = Some v \<Longrightarrow>
     A_visits okss t VIEW_ID = Some (v + int (length (filter (\<lambda>(r, w). r \<and> w) okss)))"
proof (induction okss arbitrary: t v)
  case Nil
  then show ?case by (simp add: A_visits_def)
next
  case (Cons ok okss)
  obtain r w where ok: "ok = (r, w)" by (cases ok)
  have step: "A_visit ok t VIEW_ID = Some (if r \<and> w then v + 1 else v)"
    using Cons.prems by (simp add: ok A_visit_eq)
  have "A_visits (ok # okss) t = A_visits okss (A_visit ok t)"
    by (simp add: A_visits_def)
  with step Cons.IH [of "A_visit ok t" "if r \<and> w then v + 1 else v"] show ?case
    by (simp add: ok)
qed

lemma cur_visits_count:
  "t VIEW_ID = Some v \<Longrightarrow>
     cur_visits okss t VIEW_ID = Some (v + int (length (filter (\<lambda>(r, w). r \<and> w) okss)))"
proof (induction okss arbitrary: t v)
  case Nil
  then show ?case by (simp add: cur_visits_def)
next
  case (Cons ok okss)
  obtain r w where ok: "ok = (r, w)" by (cases ok)
  have step: "cur_visit ok t VIEW_ID = Some (if r \<and> w then v + 1 else v)"
    using Cons.prems by (simp add: ok cur_visit_eq)
  have "cur_visits (ok # okss) t = cur_visits okss (cur_visit ok t)"
    by (simp add: cur_visits_def)
  with step Cons.IH [of "cur_visit ok t" "if r \<and> w then v + 1 else v"] show ?case
    by (simp add: ok)
qed

text \<open>
  Claim C2 (variant A, monotonicity). Starting from a sentinel row that holds \<open>v\<close>,
  \<open>N\<close> visits one after the other, each answered before the next begins and each
  with a successful read and a successful write, leave the row at \<open>v + N\<close>; one such
  visit takes the row from \<open>v\<close> to \<open>v + 1\<close>. This holds for the guarded version and
  for the current component.
\<close>

theorem sequential_visits_add_N:
  assumes "t VIEW_ID = Some v"
  shows "A_visits (replicate N (True, True)) t VIEW_ID = Some (v + int N)
    \<and> cur_visits (replicate N (True, True)) t VIEW_ID = Some (v + int N)
    \<and> A_visit (True, True) t = t(VIEW_ID \<mapsto> v + 1)
    \<and> cur_visit (True, True) t = t(VIEW_ID \<mapsto> v + 1)"
  using assms A_visits_count [of t v "replicate N (True, True)"]
    cur_visits_count [of t v "replicate N (True, True)"]
  by (simp add: A_visit_eq cur_visit_eq)

theorem sequential_visits_add_N_witness:
  "(initial_tableA(VIEW_ID \<mapsto> 41)) VIEW_ID = Some 41
   \<and> A_visits [(True, True), (True, True), (True, True)] (initial_tableA(VIEW_ID \<mapsto> 41)) VIEW_ID
       = Some 44
   \<and> cur_visits [(True, True), (True, True), (True, True)] (initial_tableA(VIEW_ID \<mapsto> 41)) VIEW_ID
       = Some 44
   \<and> A_visit (True, True) (initial_tableA(VIEW_ID \<mapsto> 41)) VIEW_ID = Some 42"
proof -
  have h: "(initial_tableA(VIEW_ID \<mapsto> 41)) VIEW_ID = Some 41" by simp
  have r: "replicate 3 (True, True) = [(True, True), (True, True), (True, True)]"
    by (simp add: numeral_3_eq_3)
  show ?thesis
    using h sequential_visits_add_N [of "initial_tableA(VIEW_ID \<mapsto> 41)" 41 3]
    unfolding r by simp
qed


text \<open>
  The visits above do not overlap, and they must not: two pages that both read
  \<open>41\<close> before either writes both write \<open>42\<close>, and one visit is lost.
\<close>

lemma A_overlapping_visits_lose_one:
  "fst (A_world_run
      [(0, Mount), (1, Mount), (0, Response 0 True), (1, Response 0 True),
       (0, Response 0 True), (1, Response 0 True)]
      (initial_tableA(VIEW_ID \<mapsto> 41), [initial_page, initial_page])) VIEW_ID = Some 42"
  by (simp add: A_world_run_def A_effect_def A_incrementAndFetch_def resume_simps
      take_out_def select_single_def update_eq_def
      setupRealtimeChannel_def removeChannel_def subscribe_def initial_page_def)


section \<open>Concurrent visits on the visit log\<close>

lemma recorded_count:
  "recorded p = (hasIncrementedRef p \<and> count_list (pending p) Rec_insert = 0)"
  by (simp add: recorded_def count_list_0_iff)

lemma one_insert_initial: "one_insert initial_page"
  by (simp add: one_insert_def initial_page_def)

lemma recorded_initial: "\<not> recorded initial_page"
  by (simp add: recorded_def initial_page_def)

text \<open>What one step of a page does to the table and to the guard.\<close>

lemma B_step_insert:
  assumes "one_insert p" and "B_step a (t, p) = (t', p')" and "\<not> failed_response (i, a)"
  shows "one_insert p' \<and> (recorded p \<longrightarrow> recorded p')
    \<and> length t' = length t + (if recorded p' \<and> \<not> recorded p then 1 else 0)"
proof (cases a)
  case Mount
  with assms(1,2) show ?thesis
    by (auto simp: one_insert_def recorded_count B_effect_def setup_guard
        B_recordViewAndFetch_def split: if_splits)
next
  case Unmount
  with assms(1,2) show ?thesis
    by (auto simp: one_insert_def recorded_count cleanup_guard split: if_splits)
next
  case (Visibility hidden)
  with assms(1,2) show ?thesis
    by (auto simp: one_insert_def recorded_count B_handleVisibilityChange_def setup_guard
        B_fetchViewCount_def split: if_splits)
next
  case (Response k ok)
  with assms(3) have ok: ok by (simp add: failed_response_def)
  show ?thesis
  proof (cases "k < length (pending p)")
    case False
    with assms(1,2) Response show ?thesis by simp
  next
    case True
    show ?thesis
    proof (cases "pending p ! k")
      case Rec_insert
      with True have "Rec_insert \<in> set (pending p)" by (metis nth_mem)
      then have "count_list (pending p) Rec_insert \<noteq> 0" by (simp add: count_list_0_iff)
      with Rec_insert True assms(1,2) Response ok show ?thesis
        by (auto simp: one_insert_def recorded_count count_list_take_out resume_simps
            insert_row_def split: if_splits)
    next
      case Await_count
      with True assms(1,2) Response ok show ?thesis
        by (auto simp: one_insert_def recorded_count count_list_take_out resume_simps
            select_count_def split: if_splits)
    qed
  qed
next
  case (Notify ev)
  with assms(1,2) show ?thesis
    using deliver_guard [of B_on_insert p]
    by (auto simp: one_insert_def recorded_count B_on_insert_def setViewCount_def)
qed

lemma B_world_step_insert:
  assumes "\<forall>p\<in>set ps. one_insert p"
    and "B_world_step x (t, ps) = (t', ps')"
    and "\<not> failed_response x"
  shows "(\<forall>p\<in>set ps'. one_insert p) \<and> length ps' = length ps
    \<and> length t' + length (filter recorded ps) = length t + length (filter recorded ps')"
proof -
  obtain i a where x: "x = (i, a)" by (cases x)
  show ?thesis
  proof (cases "i < length ps")
    case False
    with assms x show ?thesis by simp
  next
    case True
    obtain t1 p1 where s: "B_step a (t, ps ! i) = (t1, p1)" by (cases "B_step a (t, ps ! i)")
    with assms(2) x True have t': "t' = t1" and ps': "ps' = ps[i := p1]" by simp_all
    have "one_insert (ps ! i)" using assms(1) True by simp
    from B_step_insert [OF this s] assms(3) x
    have one: "one_insert p1" and mono: "recorded (ps ! i) \<longrightarrow> recorded p1"
      and len: "length t1 = length t + (if recorded p1 \<and> \<not> recorded (ps ! i) then 1 else 0)"
      by (simp_all add: failed_response_def)
    have "\<forall>p\<in>set ps'. one_insert p"
      using assms(1) one unfolding ps' by (auto dest: set_update_subset_insert [THEN subsetD])
    moreover have "length t' + length (filter recorded ps)
        = length t + length (filter recorded ps')"
      using filter_length_update [OF True, of recorded p1] mono len
      unfolding t' ps' by (auto split: if_splits)
    ultimately show ?thesis by (simp add: ps')
  qed
qed

lemma B_world_run_insert:
  assumes "\<forall>p\<in>set ps. one_insert p"
    and "B_world_run sch (t, ps) = (t', ps')"
    and "\<forall>x\<in>set sch. \<not> failed_response x"
  shows "length ps' = length ps
    \<and> length t' + length (filter recorded ps) = length t + length (filter recorded ps')"
  using assms
proof (induction sch arbitrary: t ps)
  case Nil
  then show ?case by (simp add: B_world_run_def)
next
  case (Cons x sch)
  obtain t1 ps1 where s: "B_world_step x (t, ps) = (t1, ps1)"
    by (cases "B_world_step x (t, ps)")
  from Cons.prems(3) have ok: "\<not> failed_response x" and oks: "\<forall>x\<in>set sch. \<not> failed_response x"
    by simp_all
  from B_world_step_insert [OF Cons.prems(1) s ok]
  have one: "\<forall>p\<in>set ps1. one_insert p" and len: "length ps1 = length ps"
    and cnt: "length t1 + length (filter recorded ps) = length t + length (filter recorded ps1)"
    by simp_all
  from Cons.prems(2) s have "B_world_run sch (t1, ps1) = (t', ps')"
    by (simp add: B_world_run_def)
  from Cons.IH [OF one this oks] len cnt show ?case by simp
qed

text \<open>
  Claim C3 (variant B, exactness). \<open>N\<close> pages load on a table of any size, and their
  steps interleave in any order the schedule says, with no failed answer. Once every
  page has recorded its visit, the table has exactly \<open>N\<close> rows more than at the
  start, and a fetch of the count then reads that number. One insert adds one row,
  whatever the table holds.
\<close>

theorem concurrent_visits_add_N:
  assumes "B_world_run sch (t, replicate N initial_page) = (t', ps')"
    and "\<forall>x\<in>set sch. \<not> failed_response x"
    and "\<forall>p\<in>set ps'. recorded p"
  shows "length t' = length t + N
    \<and> select_count True t' = Some (int (length t) + int N)
    \<and> viewCount (B_fetchViewCount_counted (select_count True t') p)
        = Some (int (length t) + int N)
    \<and> length (insert_row True t) = length t + 1"
proof -
  have one: "\<forall>p\<in>set (replicate N (initial_page :: taskB page)). one_insert p"
    by (simp add: one_insert_initial)
  have none: "filter recorded (replicate N (initial_page :: taskB page)) = []"
    by (simp add: recorded_initial)
  have all: "filter recorded ps' = ps'"
    using assms(3) by simp
  from B_world_run_insert [OF one assms(1,2)] none all
  have "length t' = length t + N" by simp
  then show ?thesis
    by (simp add: select_count_def B_fetchViewCount_counted_def setViewCount_def insert_row_def)
qed

theorem concurrent_visits_add_N_witness:
  "B_world_run [(0, Mount), (1, Mount), (1, Response 0 True), (0, Response 0 True),
       (0, Response 0 True)] ([], replicate 2 initial_page) =
     ([0, 1],
      [\<lparr>viewCount = Some 2, hasIncrementedRef = True, channelRef = Some 0, channels = [0],
        next_channel = 1, mounted = True, listening = True, pending = [],
        trace = [ReqInsert, Subscribe 0, ReqCount]\<rparr>,
       \<lparr>viewCount = None, hasIncrementedRef = True, channelRef = Some 0, channels = [0],
        next_channel = 1, mounted = True, listening = True, pending = [Await_count],
        trace = [ReqInsert, Subscribe 0, ReqCount]\<rparr>])
   \<and> length (fst (B_world_run [(0, Mount), (1, Mount), (1, Response 0 True),
        (0, Response 0 True), (0, Response 0 True)] ([], replicate 2 initial_page))) = 2
   \<and> select_count True [0, 1] = Some 2"
proof -
  have run: "B_world_run [(0, Mount), (1, Mount), (1, Response 0 True), (0, Response 0 True),
       (0, Response 0 True)] ([], replicate 2 initial_page) =
     ([0, 1],
      [\<lparr>viewCount = Some 2, hasIncrementedRef = True, channelRef = Some 0, channels = [0],
        next_channel = 1, mounted = True, listening = True, pending = [],
        trace = [ReqInsert, Subscribe 0, ReqCount]\<rparr>,
       \<lparr>viewCount = None, hasIncrementedRef = True, channelRef = Some 0, channels = [0],
        next_channel = 1, mounted = True, listening = True, pending = [Await_count],
        trace = [ReqInsert, Subscribe 0, ReqCount]\<rparr>])"
    by (simp add: B_world_run_def numeral_2_eq_2 B_effect_def B_recordViewAndFetch_def
        resume_simps take_out_def insert_row_def select_count_def
        setupRealtimeChannel_def removeChannel_def subscribe_def initial_page_def)
  have oks: "\<forall>x\<in>set [(0, Mount), (1, Mount), (1, Response 0 True), (0, Response 0 True),
       (0, Response 0 True)]. \<not> failed_response x"
    by (simp add: failed_response_def)
  have recs: "\<forall>p\<in>set
      [\<lparr>viewCount = Some 2, hasIncrementedRef = True, channelRef = Some 0, channels = [0],
        next_channel = 1, mounted = True, listening = True, pending = [],
        trace = [ReqInsert, Subscribe 0, ReqCount]\<rparr>,
       \<lparr>viewCount = None, hasIncrementedRef = True, channelRef = Some 0, channels = [0],
        next_channel = 1, mounted = True, listening = True, pending = [Await_count],
        trace = [ReqInsert, Subscribe 0, ReqCount]\<rparr>]. recorded p"
    by (simp add: recorded_def)
  show ?thesis
    using run concurrent_visits_add_N [OF run oks recs]
    by (simp add: select_count_def)
qed


section \<open>Unknown is not zero\<close>

text \<open>
  Claim C4 (unknown is not zero). The count starts as \<open>null\<close>. A failed read
  answers with no count (no data), which differs from the count \<open>0\<close> of a successful
  read of an empty table (of the fresh sentinel row); while the count is \<open>null\<close>, a
  failed fetch leaves it \<open>null\<close> and the component renders nothing; a fetch that
  reads \<open>0\<close> sets the count to \<open>0\<close> and the component renders the counter with
  \<open>0\<close>. The component renders nothing exactly when the count is \<open>null\<close>.
\<close>

theorem unknown_is_not_zero:
  assumes "viewCount pA = None" and "viewCount pB = None"
  shows "viewCount (initial_page :: taskB page) = None
    \<and> select_count False tB = None
    \<and> select_count True [] = Some 0
    \<and> select_single False VIEW_ID tA = None
    \<and> select_single True VIEW_ID initial_tableA = Some 0
    \<and> viewCount (B_fetchViewCount_counted (select_count False tB) pB) = None
    \<and> render (B_fetchViewCount_counted (select_count False tB) pB) = RenderNull
    \<and> viewCount (B_fetchViewCount_counted (select_count True []) pB) = Some 0
    \<and> render (B_fetchViewCount_counted (select_count True []) pB) = RenderViews 0
    \<and> A_fetchViewCount_selected (select_single False VIEW_ID tA) pA = Inr pA
    \<and> render pA = RenderNull
    \<and> A_fetchViewCount_selected (select_single True VIEW_ID initial_tableA) pA
        = Inr (pA\<lparr>viewCount := Some 0\<rparr>)
    \<and> render (pA\<lparr>viewCount := Some 0\<rparr>) = RenderViews 0
    \<and> RenderViews 0 \<noteq> RenderNull
    \<and> (render q = RenderNull) = (viewCount q = None)"
  using assms
  by (simp add: initial_page_def select_count_def select_single_def initial_tableA_def
      B_fetchViewCount_counted_def A_fetch_selected_Inr setViewCount_def render_def
      split: option.splits)

theorem unknown_is_not_zero_witness:
  "viewCount (initial_page :: taskA page) = None
   \<and> viewCount (initial_page :: taskB page) = None
   \<and> render (B_fetchViewCount_counted (select_count False [0, 1]) initial_page) = RenderNull
   \<and> render (B_fetchViewCount_counted (select_count True []) initial_page) = RenderViews 0
   \<and> A_fetchViewCount_selected (select_single False VIEW_ID initial_tableA) initial_page
       = Inr initial_page
   \<and> A_fetchViewCount_selected (select_single True VIEW_ID initial_tableA) initial_page
       = Inr (initial_page\<lparr>viewCount := Some 0\<rparr>)"
proof -
  have a: "viewCount (initial_page :: taskA page) = None" by (simp add: initial_page_def)
  have b: "viewCount (initial_page :: taskB page) = None" by (simp add: initial_page_def)
  show ?thesis
    using a b unknown_is_not_zero [OF a b, of "[0, 1]" initial_tableA "initial_page :: taskA page"]
    by blast
qed


section \<open>One channel per page\<close>

lemma own_channel_initial: "own_channel initial_page"
  by (simp add: own_channel_def initial_page_def)

lemma own_channel_frame:
  "channels q = channels p \<Longrightarrow> channelRef q = channelRef p \<Longrightarrow> next_channel q = next_channel p
    \<Longrightarrow> own_channel q = own_channel p"
  by (simp add: own_channel_def split: option.splits)

lemma setup_channels:
  "own_channel p \<Longrightarrow> channels (setupRealtimeChannel p) = [next_channel p]"
  by (simp add: own_channel_def setupRealtimeChannel_def removeChannel_def subscribe_def
      split: option.splits)

lemma setup_own: "own_channel p \<Longrightarrow> own_channel (setupRealtimeChannel p)"
  using setup_channels [of p] setup_channelRef [of p] setup_next [of p]
  by (simp add: own_channel_def)

lemma cleanup_own: "own_channel p \<Longrightarrow> own_channel (cleanup p)"
  by (simp add: own_channel_def cleanup_def removeChannel_def split: option.splits)

lemma A_resume_refs:
  "A_resume task ok (t, p) = (t', p') \<Longrightarrow>
     channels p' = channels p \<and> channelRef p' = channelRef p \<and> next_channel p' = next_channel p"
  by (cases task) (auto simp: resume_simps split: option.splits)

lemma B_resume_refs:
  "B_resume task ok (t, p) = (t', p') \<Longrightarrow>
     channels p' = channels p \<and> channelRef p' = channelRef p \<and> next_channel p' = next_channel p"
  by (cases task) (auto simp: resume_simps)

lemma A_step_own:
  assumes "own_channel p" and "A_step a (t, p) = (t', p')"
  shows "own_channel p'"
proof (cases a)
  case Mount
  have "own_channel (A_incrementAndFetch p)"
    using assms(1) by (simp add: own_channel_def A_incrementAndFetch_def split: option.splits)
  then have "own_channel (setupRealtimeChannel (A_incrementAndFetch p))"
    by (rule setup_own)
  then have "own_channel ((A_effect p)\<lparr>mounted := True\<rparr>)"
    by (simp add: own_channel_def A_effect_def split: option.splits)
  with assms Mount show ?thesis by (auto split: if_splits)
next
  case Unmount
  have "own_channel ((cleanup p)\<lparr>mounted := False\<rparr>)"
    using cleanup_own [OF assms(1)] by (simp add: own_channel_def split: option.splits)
  with assms Unmount show ?thesis by (auto split: if_splits)
next
  case (Visibility hidden)
  have "own_channel (A_fetchViewCount p)"
    using assms(1) by (simp add: own_channel_def A_fetchViewCount_def split: option.splits)
  then have "own_channel (setupRealtimeChannel (A_fetchViewCount p))"
    by (rule setup_own)
  with assms Visibility show ?thesis
    by (auto simp: A_handleVisibilityChange_def split: if_splits)
next
  case (Response k ok)
  show ?thesis
  proof (cases "k < length (pending p)")
    case True
    with assms(2) Response
    have "A_resume (pending p ! k) ok (t, p\<lparr>pending := take_out k (pending p)\<rparr>) = (t', p')"
      by simp
    from A_resume_refs [OF this] have "own_channel p' = own_channel p"
      by (intro own_channel_frame) simp_all
    with assms(1) show ?thesis by simp
  next
    case False
    with assms Response show ?thesis by simp
  qed
next
  case (Notify v)
  have "own_channel (deliver (A_on_update v) p) = own_channel p"
    using deliver_fields [of "A_on_update v" p]
    by (intro own_channel_frame) (simp_all add: A_on_update_def setViewCount_def)
  with assms Notify show ?thesis by auto
qed

lemma B_step_own:
  assumes "own_channel p" and "B_step a (t, p) = (t', p')"
  shows "own_channel p'"
proof (cases a)
  case Mount
  have "own_channel (B_recordViewAndFetch p)"
    using assms(1) by (simp add: own_channel_def B_recordViewAndFetch_def split: option.splits)
  then have "own_channel (setupRealtimeChannel (B_recordViewAndFetch p))"
    by (rule setup_own)
  then have "own_channel ((B_effect p)\<lparr>mounted := True\<rparr>)"
    by (simp add: own_channel_def B_effect_def split: option.splits)
  with assms Mount show ?thesis by (auto split: if_splits)
next
  case Unmount
  have "own_channel ((cleanup p)\<lparr>mounted := False\<rparr>)"
    using cleanup_own [OF assms(1)] by (simp add: own_channel_def split: option.splits)
  with assms Unmount show ?thesis by (auto split: if_splits)
next
  case (Visibility hidden)
  have "own_channel (B_fetchViewCount p)"
    using assms(1) by (simp add: own_channel_def B_fetchViewCount_def split: option.splits)
  then have "own_channel (setupRealtimeChannel (B_fetchViewCount p))"
    by (rule setup_own)
  with assms Visibility show ?thesis
    by (auto simp: B_handleVisibilityChange_def split: if_splits)
next
  case (Response k ok)
  show ?thesis
  proof (cases "k < length (pending p)")
    case True
    with assms(2) Response
    have "B_resume (pending p ! k) ok (t, p\<lparr>pending := take_out k (pending p)\<rparr>) = (t', p')"
      by simp
    from B_resume_refs [OF this] have "own_channel p' = own_channel p"
      by (intro own_channel_frame) simp_all
    with assms(1) show ?thesis by simp
  next
    case False
    with assms Response show ?thesis by simp
  qed
next
  case (Notify v)
  have "own_channel (deliver B_on_insert p) = own_channel p"
    using deliver_fields [of B_on_insert p]
    by (intro own_channel_frame) (simp_all add: B_on_insert_def setViewCount_def)
  with assms Notify show ?thesis by auto
qed

lemma A_run_own: "own_channel p \<Longrightarrow> A_run as (t, p) = (t', p') \<Longrightarrow> own_channel p'"
proof (induction as arbitrary: t p)
  case Nil
  then show ?case by (simp add: A_run_def)
next
  case (Cons a as)
  obtain t1 p1 where s: "A_step a (t, p) = (t1, p1)" by (cases "A_step a (t, p)")
  with Cons.prems have "own_channel p1" by (auto dest: A_step_own)
  moreover from Cons.prems s have "A_run as (t1, p1) = (t', p')" by (simp add: A_run_def)
  ultimately show ?case by (rule Cons.IH)
qed

lemma B_run_own: "own_channel p \<Longrightarrow> B_run as (t, p) = (t', p') \<Longrightarrow> own_channel p'"
proof (induction as arbitrary: t p)
  case Nil
  then show ?case by (simp add: B_run_def)
next
  case (Cons a as)
  obtain t1 p1 where s: "B_step a (t, p) = (t1, p1)" by (cases "B_step a (t, p)")
  with Cons.prems have "own_channel p1" by (auto dest: B_step_own)
  moreover from Cons.prems s have "B_run as (t1, p1) = (t', p')" by (simp add: B_run_def)
  ultimately show ?case by (rule Cons.IH)
qed

lemma own_channel_subscriptions: "own_channel p \<Longrightarrow> subscriptions p \<le> 1"
  by (simp add: own_channel_def subscriptions_def split: option.splits)

lemma own_channel_fresh: "own_channel p \<Longrightarrow> next_channel p \<notin> set (channels p)"
  by (auto simp: own_channel_def split: option.splits)

lemma own_channel_deliver: "own_channel p \<Longrightarrow> deliver h p = (if channels p = [] then p else h p)"
  by (auto simp: own_channel_def deliver_def split: option.splits)

lemma own_channel_resubscribe:
  assumes "own_channel p"
  shows "subscriptions p \<le> 1
    \<and> subscriptions (setupRealtimeChannel p) = 1
    \<and> channels (setupRealtimeChannel p) = [next_channel p]
    \<and> next_channel p \<notin> set (channels p)
    \<and> trace (setupRealtimeChannel p) =
        trace p @ map RemoveChannel (channels p) @ [Subscribe (next_channel p)]
    \<and> (deliver h p = p \<or> deliver h p = h p)
    \<and> deliver h (setupRealtimeChannel p) = h (setupRealtimeChannel p)"
proof -
  have "deliver h (setupRealtimeChannel p) = h (setupRealtimeChannel p)"
    using own_channel_deliver [OF setup_own [OF assms]] setup_channels [OF assms] by simp
  moreover have "map RemoveChannel (channels p)
      = (case channelRef p of Some ch \<Rightarrow> [RemoveChannel ch] | None \<Rightarrow> [])"
    using assms by (simp add: own_channel_def split: option.splits)
  ultimately show ?thesis
    using assms own_channel_subscriptions [OF assms] own_channel_fresh [OF assms]
      setup_channels [OF assms] own_channel_deliver [OF assms, of h] setup_trace [of p]
    by (simp add: subscriptions_def)
qed


section \<open>What an event does\<close>

text \<open>
  Claim C5 (variant A, delivery). An update event that reaches a page with an active
  subscription sets \<open>viewCount\<close> to the \<open>view_count\<close> the event carries, and
  changes nothing else: the table, the pending requests and the trace stay as they are,
  so no request is issued.
\<close>

theorem A_update_event_delivered_verbatim:
  assumes "channels p \<noteq> []"
  shows "A_step (Notify v) (t, p) = (t, p\<lparr>viewCount := Some v\<rparr>)
    \<and> A_on_update v p = p\<lparr>viewCount := Some v\<rparr>"
  using deliver_A_on_update [OF assms, of v] by (simp add: A_on_update_def setViewCount_def)

theorem A_update_event_delivered_verbatim_witness:
  "channels (snd (A_run [Mount] (initial_tableA(VIEW_ID \<mapsto> 41), initial_page))) \<noteq> []
   \<and> viewCount (snd (A_run [Mount, Notify 42]
        (initial_tableA(VIEW_ID \<mapsto> 41), initial_page))) = Some 42
   \<and> trace (snd (A_run [Mount, Notify 42] (initial_tableA(VIEW_ID \<mapsto> 41), initial_page)))
       = trace (snd (A_run [Mount] (initial_tableA(VIEW_ID \<mapsto> 41), initial_page)))"
proof -
  have a: "A_run [Mount] (initial_tableA(VIEW_ID \<mapsto> 41), initial_page) =
     (initial_tableA(VIEW_ID \<mapsto> 41),
      \<lparr>viewCount = None, hasIncrementedRef = True, channelRef = Some 0, channels = [0],
       next_channel = 1, mounted = True, listening = True, pending = [Inc_select],
       trace = [ReqSelect, Subscribe 0]\<rparr>)"
    by (simp add: A_run_def A_effect_def A_incrementAndFetch_def
        setupRealtimeChannel_def removeChannel_def subscribe_def initial_page_def)
  have c: "channels (snd (A_run [Mount] (initial_tableA(VIEW_ID \<mapsto> 41), initial_page))) \<noteq> []"
    unfolding a by simp
  have r: "A_run [Mount, Notify 42] s = A_step (Notify 42) (A_run [Mount] s)" for s
    by (simp add: A_run_def)
  show ?thesis
    using c A_update_event_delivered_verbatim [OF c, of 42 "initial_tableA(VIEW_ID \<mapsto> 41)"]
    unfolding r a by simp
qed

text \<open>
  Claim C6 (variant B, delivery). In every state a page can reach from its initial
  state, an insert event that reaches an active subscription takes a count \<open>prev\<close>
  to \<open>prev + 1\<close> and leaves an unknown count unknown; nothing else changes.
\<close>

theorem B_insert_event_increments_baseline:
  assumes "B_run as (t0, initial_page) = (t, p)" and "channels p \<noteq> []"
  shows "B_step (Notify ev) (t, p) =
      (t, p\<lparr>viewCount := (case viewCount p of None \<Rightarrow> None | Some prev \<Rightarrow> Some (prev + 1))\<rparr>)"
proof -
  have "own_channel p" using B_run_own [OF own_channel_initial assms(1)] .
  with assms(2) have "deliver B_on_insert p = B_on_insert p"
    by (simp add: own_channel_deliver)
  then show ?thesis
    by (simp add: B_on_insert_def setViewCount_def split: option.splits)
qed

theorem B_insert_event_increments_baseline_witness:
  "B_run [Mount, Response 0 True, Response 0 True] ([], initial_page) =
     ([0],
      \<lparr>viewCount = Some 1, hasIncrementedRef = True, channelRef = Some 0, channels = [0],
       next_channel = 1, mounted = True, listening = True, pending = [],
       trace = [ReqInsert, Subscribe 0, ReqCount]\<rparr>)
   \<and> B_run [Mount] ([], initial_page) =
     ([],
      \<lparr>viewCount = None, hasIncrementedRef = True, channelRef = Some 0, channels = [0],
       next_channel = 1, mounted = True, listening = True, pending = [Rec_insert],
       trace = [ReqInsert, Subscribe 0]\<rparr>)
   \<and> viewCount (snd (B_step (Notify ())
        (B_run [Mount, Response 0 True, Response 0 True] ([], initial_page)))) = Some 2
   \<and> viewCount (snd (B_step (Notify ()) (B_run [Mount] ([], initial_page)))) = None"
proof -
  have b: "B_run [Mount, Response 0 True, Response 0 True] ([], initial_page) =
     ([0],
      \<lparr>viewCount = Some 1, hasIncrementedRef = True, channelRef = Some 0, channels = [0],
       next_channel = 1, mounted = True, listening = True, pending = [],
       trace = [ReqInsert, Subscribe 0, ReqCount]\<rparr>)"
    by (simp add: B_run_def B_effect_def B_recordViewAndFetch_def resume_simps take_out_def
        insert_row_def select_count_def
        setupRealtimeChannel_def removeChannel_def subscribe_def initial_page_def)
  have c: "B_run [Mount] ([], initial_page) =
     ([],
      \<lparr>viewCount = None, hasIncrementedRef = True, channelRef = Some 0, channels = [0],
       next_channel = 1, mounted = True, listening = True, pending = [Rec_insert],
       trace = [ReqInsert, Subscribe 0]\<rparr>)"
    by (simp add: B_run_def B_effect_def B_recordViewAndFetch_def
        setupRealtimeChannel_def removeChannel_def subscribe_def initial_page_def)
  show ?thesis
    using b c B_insert_event_increments_baseline [OF b, of "()"]
      B_insert_event_increments_baseline [OF c, of "()"]
    by simp
qed


section \<open>Subscribing again\<close>

text \<open>
  Claim C7 (resubscription). In every state a page of either subscribing version can
  reach from its initial state, by any sequence of mounts, unmounts, visibility changes,
  answers and events, at most one subscription is active. Calling
  \<open>setupRealtimeChannel\<close> there first removes the channel that was subscribed and
  then subscribes a new one (the trace shows the order), after which the new channel is
  the only one; so an event runs the handler at most once before the call and exactly
  once after it.
\<close>

theorem one_subscription_per_page:
  assumes "A_run as (tA0, initial_page) = (tA, pA)"
    and "B_run bs (tB0, initial_page) = (tB, pB)"
  shows "subscriptions pA \<le> 1
    \<and> subscriptions (setupRealtimeChannel pA) = 1
    \<and> channels (setupRealtimeChannel pA) = [next_channel pA]
    \<and> next_channel pA \<notin> set (channels pA)
    \<and> trace (setupRealtimeChannel pA) =
        trace pA @ map RemoveChannel (channels pA) @ [Subscribe (next_channel pA)]
    \<and> (deliver hA pA = pA \<or> deliver hA pA = hA pA)
    \<and> deliver hA (setupRealtimeChannel pA) = hA (setupRealtimeChannel pA)
    \<and> subscriptions pB \<le> 1
    \<and> subscriptions (setupRealtimeChannel pB) = 1
    \<and> channels (setupRealtimeChannel pB) = [next_channel pB]
    \<and> next_channel pB \<notin> set (channels pB)
    \<and> trace (setupRealtimeChannel pB) =
        trace pB @ map RemoveChannel (channels pB) @ [Subscribe (next_channel pB)]
    \<and> (deliver hB pB = pB \<or> deliver hB pB = hB pB)
    \<and> deliver hB (setupRealtimeChannel pB) = hB (setupRealtimeChannel pB)"
proof -
  have "own_channel pA" using A_run_own [OF own_channel_initial assms(1)] .
  moreover have "own_channel pB" using B_run_own [OF own_channel_initial assms(2)] .
  ultimately show ?thesis
    using own_channel_resubscribe [of pA hA] own_channel_resubscribe [of pB hB] by simp
qed

theorem one_subscription_per_page_witness:
  "A_run [Mount, Visibility False, Visibility True] (initial_tableA, initial_page) =
     (initial_tableA,
      \<lparr>viewCount = None, hasIncrementedRef = True, channelRef = Some 1, channels = [1],
       next_channel = 2, mounted = True, listening = True,
       pending = [Inc_select, Fetch_select],
       trace = [ReqSelect, Subscribe 0, ReqSelect, RemoveChannel 0, Subscribe 1]\<rparr>)
   \<and> B_run [Mount, Unmount, Mount] ([], initial_page) =
     ([],
      \<lparr>viewCount = None, hasIncrementedRef = True, channelRef = Some 1, channels = [1],
       next_channel = 2, mounted = True, listening = True,
       pending = [Rec_insert],
       trace = [ReqInsert, Subscribe 0, RemoveChannel 0, Subscribe 1]\<rparr>)
   \<and> subscriptions
        (snd (A_run [Mount, Visibility False, Visibility True] (initial_tableA, initial_page))) \<le> 1
   \<and> channels (setupRealtimeChannel
        (snd (A_run [Mount, Visibility False, Visibility True] (initial_tableA, initial_page)))) = [2]
   \<and> subscriptions (snd (B_run [Mount, Unmount, Mount] ([], initial_page))) \<le> 1
   \<and> channels (setupRealtimeChannel (snd (B_run [Mount, Unmount, Mount] ([], initial_page)))) = [2]"
proof -
  have a: "A_run [Mount, Visibility False, Visibility True] (initial_tableA, initial_page) =
     (initial_tableA,
      \<lparr>viewCount = None, hasIncrementedRef = True, channelRef = Some 1, channels = [1],
       next_channel = 2, mounted = True, listening = True,
       pending = [Inc_select, Fetch_select],
       trace = [ReqSelect, Subscribe 0, ReqSelect, RemoveChannel 0, Subscribe 1]\<rparr>)"
    by (simp add: A_run_def A_effect_def A_incrementAndFetch_def A_handleVisibilityChange_def
        A_fetchViewCount_def setupRealtimeChannel_def removeChannel_def subscribe_def
        initial_page_def)
  have b: "B_run [Mount, Unmount, Mount] ([], initial_page) =
     ([],
      \<lparr>viewCount = None, hasIncrementedRef = True, channelRef = Some 1, channels = [1],
       next_channel = 2, mounted = True, listening = True,
       pending = [Rec_insert],
       trace = [ReqInsert, Subscribe 0, RemoveChannel 0, Subscribe 1]\<rparr>)"
    by (simp add: B_run_def B_effect_def B_recordViewAndFetch_def cleanup_def
        setupRealtimeChannel_def removeChannel_def subscribe_def initial_page_def)
  show ?thesis
    using a b one_subscription_per_page [OF a b, of "A_on_update 42" B_on_insert]
    by simp
qed


section \<open>When the page becomes visible again\<close>

text \<open>
  Claim C8 (re-synchronisation). While the listener is registered, a visibility change
  that finds the document visible calls \<open>fetchViewCount\<close> and then
  \<open>setupRealtimeChannel\<close>: the read is handed to the database client before the old
  channel is removed and the new one subscribed. A visibility change that finds the
  document hidden changes nothing.
\<close>

theorem visibility_regain_fetches_then_resubscribes:
  assumes "listening pA" and "listening pB"
  shows "A_step (Visibility False) (tA, pA) = (tA, setupRealtimeChannel (A_fetchViewCount pA))
    \<and> trace (snd (A_step (Visibility False) (tA, pA))) =
        trace pA @ [ReqSelect]
          @ (case channelRef pA of Some ch \<Rightarrow> [RemoveChannel ch] | None \<Rightarrow> [])
          @ [Subscribe (next_channel pA)]
    \<and> A_step (Visibility True) (tA, pA) = (tA, pA)
    \<and> B_step (Visibility False) (tB, pB) = (tB, setupRealtimeChannel (B_fetchViewCount pB))
    \<and> trace (snd (B_step (Visibility False) (tB, pB))) =
        trace pB @ [ReqCount]
          @ (case channelRef pB of Some ch \<Rightarrow> [RemoveChannel ch] | None \<Rightarrow> [])
          @ [Subscribe (next_channel pB)]
    \<and> B_step (Visibility True) (tB, pB) = (tB, pB)"
  using assms
  by (simp add: A_handleVisibilityChange_def B_handleVisibilityChange_def setup_trace
      A_fetchViewCount_def B_fetchViewCount_def)

theorem visibility_regain_fetches_then_resubscribes_witness:
  "listening (snd (A_run [Mount] (initial_tableA, initial_page)))
   \<and> listening (snd (B_run [Mount] ([], initial_page)))
   \<and> trace (snd (A_run [Mount, Visibility False] (initial_tableA, initial_page))) =
       [ReqSelect, Subscribe 0, ReqSelect, RemoveChannel 0, Subscribe 1]
   \<and> A_run [Mount, Visibility True] (initial_tableA, initial_page) =
       A_run [Mount] (initial_tableA, initial_page)
   \<and> trace (snd (B_run [Mount, Visibility False] ([], initial_page))) =
       [ReqInsert, Subscribe 0, ReqCount, RemoveChannel 0, Subscribe 1]
   \<and> B_run [Mount, Visibility True] ([], initial_page) = B_run [Mount] ([], initial_page)"
proof -
  have a: "A_run [Mount] (initial_tableA, initial_page) =
     (initial_tableA,
      \<lparr>viewCount = None, hasIncrementedRef = True, channelRef = Some 0, channels = [0],
       next_channel = 1, mounted = True, listening = True, pending = [Inc_select],
       trace = [ReqSelect, Subscribe 0]\<rparr>)"
    by (simp add: A_run_def A_effect_def A_incrementAndFetch_def
        setupRealtimeChannel_def removeChannel_def subscribe_def initial_page_def)
  have b: "B_run [Mount] ([], initial_page) =
     ([],
      \<lparr>viewCount = None, hasIncrementedRef = True, channelRef = Some 0, channels = [0],
       next_channel = 1, mounted = True, listening = True, pending = [Rec_insert],
       trace = [ReqInsert, Subscribe 0]\<rparr>)"
    by (simp add: B_run_def B_effect_def B_recordViewAndFetch_def
        setupRealtimeChannel_def removeChannel_def subscribe_def initial_page_def)
  have la: "listening (snd (A_run [Mount] (initial_tableA, initial_page)))"
    unfolding a by simp
  have lb: "listening (snd (B_run [Mount] ([], initial_page)))"
    unfolding b by simp
  have ra: "A_run [Mount, x] s = A_step x (A_run [Mount] s)" for x s
    by (simp add: A_run_def)
  have rb: "B_run [Mount, x] s = B_step x (B_run [Mount] s)" for x s
    by (simp add: B_run_def)
  show ?thesis
    using la lb visibility_regain_fetches_then_resubscribes [OF la lb, of initial_tableA "[]"]
    unfolding ra rb a b
    by (simp add: A_handleVisibilityChange_def B_handleVisibilityChange_def)
qed


section \<open>Failures\<close>

text \<open>
  Claim C9 as stated fails where the write fails: with the sentinel row at \<open>41\<close>, a
  successful read followed by a failed update leaves the row at \<open>41\<close>, and the
  component, which rendered nothing before, then shows \<open>42\<close>.
\<close>

theorem write_failure_still_updates_display:
  "fst (A_run [Mount, Response 0 True, Response 0 False]
        (initial_tableA(VIEW_ID \<mapsto> 41), initial_page)) VIEW_ID = Some 41
   \<and> render (snd (A_run [Mount, Response 0 True]
        (initial_tableA(VIEW_ID \<mapsto> 41), initial_page))) = RenderNull
   \<and> render (snd (A_run [Mount, Response 0 True, Response 0 False]
        (initial_tableA(VIEW_ID \<mapsto> 41), initial_page))) = RenderViews 42"
  by (simp add: A_run_def A_effect_def A_incrementAndFetch_def resume_simps take_out_def
      select_single_def update_eq_def initial_tableA_def render_def
      setupRealtimeChannel_def removeChannel_def subscribe_def initial_page_def)

text \<open>
  Claim C9, amended (failure absorption). \<open>incrementAndFetch\<close> never throws, whatever
  the read answers. When the read fails, no write is issued and neither the table nor
  the page changes (the answered request apart, which is no longer pending). When the write fails, the table does not change; the count shown is
  still set to the count read plus one, since the answer of the update is not looked
  at. This holds for the guarded version and for the current component.
\<close>

theorem failures_are_absorbed:
  "A_incrementAndFetch_selected None p = Inr p
   \<and> A_incrementAndFetch_selected (Some v) p =
       Inr (p\<lparr>pending := pending p @ [Inc_update (v + 1)],
              trace := trace p @ [ReqUpdate (v + 1)]\<rparr>)
   \<and> A_resume Inc_select False (t, p) = (t, p)
   \<and> A_resume (Inc_update n) False (t, p) = (t, p\<lparr>viewCount := Some n\<rparr>)
   \<and> cur_incrementAndFetch_selected None p = Inr p
   \<and> cur_incrementAndFetch_selected (Some v) p =
       Inr (p\<lparr>pending := pending p @ [Inc_update (v + 1)],
              trace := trace p @ [ReqUpdate (v + 1)]\<rparr>)
   \<and> cur_resume Inc_select False (t, p) = (t, p)
   \<and> cur_resume (Inc_update n) False (t, p) = (t, p\<lparr>viewCount := Some n\<rparr>)"
  by (simp add: resume_simps select_single_def update_eq_def)


section \<open>A known count stays known\<close>

lemma A_resume_known:
  "known p \<Longrightarrow> A_resume task ok (t, p) = (t', p') \<Longrightarrow> known p'"
  by (cases task) (auto simp: known_def resume_simps split: option.splits)

lemma B_resume_known:
  "known p \<Longrightarrow> B_resume task ok (t, p) = (t', p') \<Longrightarrow> known p'"
  by (cases task) (auto simp: known_def resume_simps split: if_splits)

lemma A_step_known:
  assumes "known p" and "A_step a (t, p) = (t', p')"
  shows "known p'"
proof (cases a)
  case Mount
  with assms show ?thesis
    by (auto simp: known_def A_effect_def setup_viewCount A_incrementAndFetch_def split: if_splits)
next
  case Unmount
  with assms show ?thesis by (auto simp: known_def cleanup_viewCount split: if_splits)
next
  case (Visibility hidden)
  with assms show ?thesis
    by (auto simp: known_def A_handleVisibilityChange_def setup_viewCount A_fetchViewCount_def
        split: if_splits)
next
  case (Response k ok)
  have "known (p\<lparr>pending := take_out k (pending p)\<rparr>)"
    using assms(1) by (simp add: known_def)
  with assms Response show ?thesis
    by (auto split: if_splits dest: A_resume_known)
next
  case (Notify v)
  have "known (deliver (A_on_update v) p)"
    using assms(1) by (intro deliver_known) (simp_all add: known_def A_on_update_def setViewCount_def)
  with assms Notify show ?thesis by auto
qed

lemma B_step_known:
  assumes "known p" and "B_step a (t, p) = (t', p')"
  shows "known p'"
proof (cases a)
  case Mount
  with assms show ?thesis
    by (auto simp: known_def B_effect_def setup_viewCount B_recordViewAndFetch_def split: if_splits)
next
  case Unmount
  with assms show ?thesis by (auto simp: known_def cleanup_viewCount split: if_splits)
next
  case (Visibility hidden)
  with assms show ?thesis
    by (auto simp: known_def B_handleVisibilityChange_def setup_viewCount B_fetchViewCount_def
        split: if_splits)
next
  case (Response k ok)
  have "known (p\<lparr>pending := take_out k (pending p)\<rparr>)"
    using assms(1) by (simp add: known_def)
  with assms Response show ?thesis
    by (auto split: if_splits dest: B_resume_known)
next
  case (Notify v)
  have "known (deliver B_on_insert p)"
    using assms(1)
    by (intro deliver_known) (auto simp: known_def B_on_insert_def setViewCount_def)
  with assms Notify show ?thesis by auto
qed

lemma A_run_known: "known p \<Longrightarrow> known (snd (A_run as (t, p)))"
proof (induction as arbitrary: t p)
  case Nil
  then show ?case by (simp add: A_run_def)
next
  case (Cons a as)
  obtain t1 p1 where s: "A_step a (t, p) = (t1, p1)" by (cases "A_step a (t, p)")
  with Cons.prems have "known p1" by (auto dest: A_step_known)
  then have "known (snd (A_run as (t1, p1)))" by (rule Cons.IH)
  with s show ?case by (simp add: A_run_def)
qed

lemma B_run_known: "known p \<Longrightarrow> known (snd (B_run as (t, p)))"
proof (induction as arbitrary: t p)
  case Nil
  then show ?case by (simp add: B_run_def)
next
  case (Cons a as)
  obtain t1 p1 where s: "B_step a (t, p) = (t1, p1)" by (cases "B_step a (t, p)")
  with Cons.prems have "known p1" by (auto dest: B_step_known)
  then have "known (snd (B_run as (t1, p1)))" by (rule Cons.IH)
  with s show ?case by (simp add: B_run_def)
qed

text \<open>
  Claim C10 (a known count stays known). Once \<open>viewCount\<close> is not \<open>null\<close>, no
  sequence of mounts, unmounts, visibility changes, answers (successful or failed) and
  events sets it back to \<open>null\<close>, in either subscribing version. A fetch whose
  answer has no data or no count leaves the page as it is, and the handler of the insert
  event takes \<open>null\<close> to \<open>null\<close> and \<open>n\<close> to \<open>n + 1\<close>.
\<close>

theorem known_count_stays_known:
  assumes "viewCount pA \<noteq> None" and "viewCount pB \<noteq> None"
  shows "viewCount (snd (A_run as (tA, pA))) \<noteq> None
    \<and> viewCount (snd (B_run bs (tB, pB))) \<noteq> None
    \<and> A_fetchViewCount_selected None pA = Inr pA
    \<and> A_fetchViewCount_selected (select_single False VIEW_ID tA) pA = Inr pA
    \<and> B_fetchViewCount_counted None pB = pB
    \<and> B_fetchViewCount_counted (select_count False tB) pB = pB
    \<and> viewCount (B_on_insert q) = (case viewCount q of None \<Rightarrow> None | Some n \<Rightarrow> Some (n + 1))"
  using assms A_run_known [of pA as tA] B_run_known [of pB bs tB]
  by (simp add: known_def A_fetchViewCount_selected_def B_fetchViewCount_counted_def
      select_single_def select_count_def B_on_insert_def setViewCount_def)

theorem known_count_stays_known_witness:
  "viewCount (snd (A_run [Mount, Response 0 True, Response 0 True]
       (initial_tableA, initial_page))) \<noteq> None
   \<and> viewCount (snd (B_run [Mount, Response 0 True, Response 0 True] ([], initial_page))) \<noteq> None
   \<and> viewCount (snd (A_run [Visibility False, Response 0 False, Unmount]
        (A_run [Mount, Response 0 True, Response 0 True] (initial_tableA, initial_page)))) = Some 1
   \<and> viewCount (snd (B_run [Visibility False, Response 0 False, Notify (), Unmount]
        (B_run [Mount, Response 0 True, Response 0 True] ([], initial_page)))) = Some 2"
proof -
  have a: "A_run [Mount, Response 0 True, Response 0 True] (initial_tableA, initial_page) =
     (initial_tableA(VIEW_ID \<mapsto> 1),
      \<lparr>viewCount = Some 1, hasIncrementedRef = True, channelRef = Some 0, channels = [0],
       next_channel = 1, mounted = True, listening = True, pending = [],
       trace = [ReqSelect, Subscribe 0, ReqUpdate 1]\<rparr>)"
    by (simp add: A_run_def A_effect_def A_incrementAndFetch_def resume_simps take_out_def
        select_single_def update_eq_def initial_tableA_def
        setupRealtimeChannel_def removeChannel_def subscribe_def initial_page_def)
  have b: "B_run [Mount, Response 0 True, Response 0 True] ([], initial_page) =
     ([0],
      \<lparr>viewCount = Some 1, hasIncrementedRef = True, channelRef = Some 0, channels = [0],
       next_channel = 1, mounted = True, listening = True, pending = [],
       trace = [ReqInsert, Subscribe 0, ReqCount]\<rparr>)"
    by (simp add: B_run_def B_effect_def B_recordViewAndFetch_def resume_simps take_out_def
        insert_row_def select_count_def
        setupRealtimeChannel_def removeChannel_def subscribe_def initial_page_def)
  have a': "viewCount (snd (A_run [Visibility False, Response 0 False, Unmount]
        (A_run [Mount, Response 0 True, Response 0 True] (initial_tableA, initial_page)))) = Some 1"
    unfolding a
    by (simp add: A_run_def A_handleVisibilityChange_def A_fetchViewCount_def resume_simps
        take_out_def select_single_def cleanup_def
        setupRealtimeChannel_def removeChannel_def subscribe_def)
  have b': "viewCount (snd (B_run [Visibility False, Response 0 False, Notify (), Unmount]
        (B_run [Mount, Response 0 True, Response 0 True] ([], initial_page)))) = Some 2"
    unfolding b
    by (simp add: B_run_def B_handleVisibilityChange_def resume_simps
        take_out_def select_count_def cleanup_def deliver_def B_on_insert_def
        setupRealtimeChannel_def removeChannel_def subscribe_def)
  have ka: "viewCount (snd (A_run [Mount, Response 0 True, Response 0 True]
       (initial_tableA, initial_page))) \<noteq> None"
    unfolding a by simp
  have kb: "viewCount (snd (B_run [Mount, Response 0 True, Response 0 True]
       ([], initial_page))) \<noteq> None"
    unfolding b by simp
  show ?thesis
    using ka kb a' b' known_count_stays_known [OF ka kb]
    by simp
qed

end
